theory Spec2Isabelle
  imports Main "HOL-Library.Word" "HOL-Library.Sublist"
begin

section \<open>Go values and runs of a goroutine\<close>

text \<open>
  The program (utpools.go) is a set of goroutines that block on reads, accepts, channel
  operations and timers. Every goroutine is embedded as a deterministic step function
  \<open>step event state\<close> that returns \<open>None\<close> when the event cannot happen in that
  state (the goroutine is blocked somewhere else, or has ended). The events are what the
  environment decides: what a blocking call returns, which case of a \<open>select\<close> fires.
  A run applies a list of events; a goroutine that is blocked for ever is a state in
  which no event is enabled.
\<close>

type_synonym byte = "8 word"

text \<open>
  An \<open>error\<close> value as the code inspects it: the type assertion \<open>err.(net.Error)\<close>
  succeeds (and then \<open>Timeout()\<close> answers) or fails.
\<close>

datatype go_error = NetError bool | OtherError

fun net_error_ok :: "go_error \<Rightarrow> bool" where
  "net_error_ok (NetError t) = True"
| "net_error_ok OtherError = False"

fun Timeout :: "go_error \<Rightarrow> bool" where
  "Timeout (NetError t) = t"
| "Timeout OtherError = False"

text \<open>\<open>time.Second\<close>, in nanoseconds (the unit of \<open>time.Duration\<close>).\<close>

definition Second :: nat where
  "Second = 1000000000"

fun run :: "('e \<Rightarrow> 's \<Rightarrow> 's option) \<Rightarrow> 'e list \<Rightarrow> 's \<Rightarrow> 's option" where
  "run step [] s = Some s"
| "run step (e # es) s = (case step e s of None \<Rightarrow> None | Some s' \<Rightarrow> run step es s')"

section \<open>The read pump: \<open>chanFromConn\<close>\<close>

text \<open>
  The goroutine started by \<open>chanFromConn(pool, conn)\<close>. Slices are references, so the
  model keeps a heap from addresses to array contents: address 0 is the read buffer
  \<open>b = make([]byte, 1024)\<close>, and every \<open>make([]byte, n)\<close> takes the next unused address.

  The pump blocks at three places: in \<open>conn.Read(b)\<close>, in the \<open>select\<close> that offers a
  chunk (against \<open>time.After(time.Second * 10)\<close>), and in the plain send \<open>c <- nil\<close>.
\<close>

datatype pump_pc = AtRead | AtPublish nat | AtSentinel | Finished

datatype pump_action =
    Read "byte list" "go_error option"
  | Publish nat nat
  | Abandon nat nat
  | PublishNil
  | CloseChan
  | PoolPut
  | PoolSize

record pump =
  pool_given :: bool
  pc :: pump_pc
  heap :: "nat \<Rightarrow> byte list"
  fresh :: nat
  made :: "(nat \<times> byte list) list"
  trace :: "pump_action list"

text \<open>
  What the environment decides for a pump: \<open>ReadReturns data err\<close> is \<open>conn.Read(b)\<close>
  returning \<open>(length data, err)\<close> after storing \<open>data\<close> at the front of \<open>b\<close>;
  \<open>Taken d\<close> is the dispatch loop receiving the offered value after the pump has waited
  \<open>d\<close> nanoseconds; \<open>TimerFired\<close> is the \<open>time.After\<close> case of the \<open>select\<close>.
\<close>

datatype pump_event = ReadReturns "byte list" "go_error option" | Taken nat | TimerFired

definition buf :: nat where
  "buf = 0"

definition publish_timeout :: nat where
  "publish_timeout = Second * 10"

definition chanFromConn :: "bool \<Rightarrow> pump" where
  "chanFromConn pool_nonnil =
     \<lparr>pool_given = pool_nonnil, pc = AtRead,
      heap = (\<lambda>a. [])(buf := replicate 1024 0), fresh = Suc buf, made = [], trace = []\<rparr>"

text \<open>Lines 154 to 158: after the loop.\<close>

definition finish :: "pump \<Rightarrow> pump" where
  "finish p =
     p\<lparr>pc := Finished,
       trace := trace p @ CloseChan # (if pool_given p then [PoolPut, PoolSize] else [])\<rparr>"

text \<open>
  Lines 135 to 151. A read never returns more bytes than the buffer holds (the contract of
  \<open>Read\<close>: \<open>0 <= n <= len(b)\<close>). In the \<open>select\<close>, the send case can only be taken
  while the timer has not fired, so \<open>Taken d\<close> needs \<open>d \<le> publish_timeout\<close>; the
  \<open>break\<close> of the timer case leaves the \<open>select\<close>, not the \<open>for\<close>.
\<close>

fun pump_step :: "pump_event \<Rightarrow> pump \<Rightarrow> pump option" where
  "pump_step (ReadReturns data err) p =
     (if pc p \<noteq> AtRead \<or> length data > length (heap p buf) then None
      else
        let n = length data;
            b = data @ drop n (heap p buf);
            p1 = p\<lparr>heap := (heap p)(buf := b), trace := trace p @ [Read data err]\<rparr>
        in (case err of
              Some e \<Rightarrow>
                if \<not> net_error_ok e \<or> False = Timeout e
                then Some (p1\<lparr>pc := AtSentinel\<rparr>)
                else Some (finish p1)
            | None \<Rightarrow>
                if n > 0
                then
                  let res = fresh p1
                  in Some (p1\<lparr>pc := AtPublish res,
                              heap := (heap p1)(res := take n b),
                              fresh := Suc res,
                              made := made p1 @ [(res, data)]\<rparr>)
                else Some p1))"
| "pump_step (Taken d) p =
     (case pc p of
        AtPublish res \<Rightarrow>
          if d \<le> publish_timeout
          then Some (p\<lparr>pc := AtRead, trace := trace p @ [Publish res d]\<rparr>)
          else None
      | AtSentinel \<Rightarrow> Some (finish (p\<lparr>trace := trace p @ [PublishNil]\<rparr>))
      | _ \<Rightarrow> None)"
| "pump_step TimerFired p =
     (case pc p of
        AtPublish res \<Rightarrow>
          Some (p\<lparr>pc := AtRead, trace := trace p @ [Abandon res publish_timeout]\<rparr>)
      | _ \<Rightarrow> None)"

text \<open>What the pump offers on its channel while it is blocked in a send.\<close>

definition offered :: "pump \<Rightarrow> byte list option option" where
  "offered p =
     (case pc p of
        AtPublish res \<Rightarrow> Some (Some (heap p res))
      | AtSentinel \<Rightarrow> Some None
      | _ \<Rightarrow> None)"

section \<open>The dispatch loop: \<open>Pipe\<close>\<close>

text \<open>
  A received value is \<open>None\<close> for \<open>nil\<close> and \<open>Some bytes\<close> for a slice. \<open>RecvSc\<close>
  carries what \<open>time.Now()\<close> would return (nanoseconds) and both events carry the
  \<open>(n, err)\<close> that \<open>Write\<close> would return; the code discards it.
\<close>

type_synonym write_result = "nat \<times> go_error option"

datatype pipe_action = DstWrite "byte list" | SrcWrite "byte list" | DstSetDeadline nat

datatype pipe_event =
    RecvSc "byte list option" nat write_result
  | RecvDc "byte list option" write_result

record pipe =
  returned :: bool
  ptrace :: "pipe_action list"

definition Pipe_loop :: pipe where
  "Pipe_loop = \<lparr>returned = False, ptrace = []\<rparr>"

fun Pipe_step :: "pipe_event \<Rightarrow> pipe \<Rightarrow> pipe option" where
  "Pipe_step (RecvSc sd now wr) l =
     (if returned l then None
      else (case sd of
              None \<Rightarrow> Some (l\<lparr>returned := True,
                                ptrace := ptrace l @ [DstSetDeadline (now + Second * 10)]\<rparr>)
            | Some bytes \<Rightarrow> Some (l\<lparr>ptrace := ptrace l @ [DstWrite bytes]\<rparr>)))"
| "Pipe_step (RecvDc dd wr) l =
     (if returned l then None
      else (case dd of
              None \<Rightarrow> Some (l\<lparr>returned := True\<rparr>)
            | Some bytes \<Rightarrow> Some (l\<lparr>ptrace := ptrace l @ [SrcWrite bytes]\<rparr>)))"

section \<open>One relay: two pumps and the dispatch loop\<close>

text \<open>
  \<open>Pipe(pool, src, dst)\<close> starts \<open>sc = chanFromConn(nil, src)\<close> and
  \<open>dc = chanFromConn(pool, dst)\<close> and then loops. Both channels are unbuffered, so a
  send and its receive are one joint step (\<open>Handoff\<close>): possible only while the pump
  offers a value and the loop is still in its \<open>select\<close>. A receive from a channel that
  its pump has closed yields \<open>nil\<close> (\<open>RecvClosed\<close>).
\<close>

datatype side = Client | Backend

record relay =
  sc :: pump
  dc :: pump
  loop :: pipe

datatype relay_event =
    ConnRead side "byte list" "go_error option"
  | Handoff side nat nat write_result
  | Timer side
  | RecvClosed side nat write_result

definition Pipe :: "bool \<Rightarrow> relay" where
  "Pipe pool_nonnil =
     \<lparr>sc = chanFromConn False, dc = chanFromConn pool_nonnil, loop = Pipe_loop\<rparr>"

fun pump_of :: "side \<Rightarrow> relay \<Rightarrow> pump" where
  "pump_of Client r = sc r"
| "pump_of Backend r = dc r"

fun set_pump :: "side \<Rightarrow> relay \<Rightarrow> pump \<Rightarrow> relay" where
  "set_pump Client r p = r\<lparr>sc := p\<rparr>"
| "set_pump Backend r p = r\<lparr>dc := p\<rparr>"

fun recv :: "side \<Rightarrow> byte list option \<Rightarrow> nat \<Rightarrow> write_result \<Rightarrow> pipe_event" where
  "recv Client v now wr = RecvSc v now wr"
| "recv Backend v now wr = RecvDc v wr"

fun relay_step :: "relay_event \<Rightarrow> relay \<Rightarrow> relay option" where
  "relay_step (ConnRead sd data err) r =
     map_option (set_pump sd r) (pump_step (ReadReturns data err) (pump_of sd r))"
| "relay_step (Handoff sd d now wr) r =
     (case offered (pump_of sd r) of
        None \<Rightarrow> None
      | Some v \<Rightarrow>
          (case Pipe_step (recv sd v now wr) (loop r) of
             None \<Rightarrow> None
           | Some l \<Rightarrow>
               (case pump_step (Taken d) (pump_of sd r) of
                  None \<Rightarrow> None
                | Some p \<Rightarrow> Some ((set_pump sd r p)\<lparr>loop := l\<rparr>))))"
| "relay_step (Timer sd) r =
     map_option (set_pump sd r) (pump_step TimerFired (pump_of sd r))"
| "relay_step (RecvClosed sd now wr) r =
     (if pc (pump_of sd r) = Finished
      then map_option (\<lambda>l. r\<lparr>loop := l\<rparr>) (Pipe_step (recv sd None now wr) (loop r))
      else None)"

text \<open>Observations on traces, in the order of the trace.\<close>

fun read_chunk :: "pump_action \<Rightarrow> byte list list" where
  "read_chunk (Read data err) = (if data = [] then [] else [data])"
| "read_chunk _ = []"

definition chunks_read :: "pump \<Rightarrow> byte list list" where
  "chunks_read p = concat (map read_chunk (trace p))"

fun published_addr :: "pump_action \<Rightarrow> nat list" where
  "published_addr (Publish res d) = [res]"
| "published_addr _ = []"

definition published :: "pump \<Rightarrow> nat list" where
  "published p = concat (map published_addr (trace p))"

fun abandoned_addr :: "pump_action \<Rightarrow> nat list" where
  "abandoned_addr (Abandon res d) = [res]"
| "abandoned_addr _ = []"

definition abandoned :: "pump \<Rightarrow> nat list" where
  "abandoned p = concat (map abandoned_addr (trace p))"

fun lossy_read :: "pump_action \<Rightarrow> bool" where
  "lossy_read (Read data err) = (data \<noteq> [] \<and> err \<noteq> None)"
| "lossy_read _ = False"

definition pending :: "pump \<Rightarrow> byte list list" where
  "pending p = (case pc p of AtPublish res \<Rightarrow> [heap p res] | _ \<Rightarrow> [])"

fun write_to :: "side \<Rightarrow> pipe_action \<Rightarrow> byte list list" where
  "write_to Backend (DstWrite bytes) = [bytes]"
| "write_to Client (SrcWrite bytes) = [bytes]"
| "write_to sd a = []"

definition forwarded :: "side \<Rightarrow> relay \<Rightarrow> byte list list" where
  "forwarded sd r = concat (map (write_to sd) (ptrace (loop r)))"

fun other :: "side \<Rightarrow> side" where
  "other Client = Backend"
| "other Backend = Client"

section \<open>The acceptor loop\<close>

text \<open>Lines 68 to 82: what one return of \<open>listener.Accept()\<close> makes the loop do.\<close>

datatype accept_result = Conn nat | AcceptErr go_error

datatype accept_outcome = Spawn nat | Retry | Stop

fun accept_once :: "accept_result \<Rightarrow> accept_outcome" where
  "accept_once (AcceptErr e) = (if net_error_ok e \<and> Timeout e then Stop else Retry)"
| "accept_once (Conn c) = Spawn c"

text \<open>
  The loop over the successive results of \<open>Accept\<close>: the connections it spawned a
  session for, and whether it has left the loop (otherwise it is blocked in \<open>Accept\<close>).
\<close>

fun accept_loop :: "accept_result list \<Rightarrow> nat list \<times> bool" where
  "accept_loop [] = ([], False)"
| "accept_loop (r # rs) =
     (case accept_once r of
        Stop \<Rightarrow> ([], True)
      | Retry \<Rightarrow> accept_loop rs
      | Spawn c \<Rightarrow> (case accept_loop rs of (cs, stopped) \<Rightarrow> (c # cs, stopped)))"

section \<open>Sessions, the wait group and \<open>main\<close>\<close>

text \<open>
  \<open>handleConn\<close> up to the point where it either returns or calls \<open>Pipe\<close>
  (lines 112 to 123), and after \<open>Pipe\<close> has returned. The deferred \<open>conn.Close()\<close>
  runs at each return. The arguments of \<open>Debugf\<close> call \<open>pool.Size()\<close>.
\<close>

datatype conn_action = SizeCall | GetCall | PipeCall | ConnClose

definition handleConn_enter :: "bool \<Rightarrow> conn_action list \<times> bool" where
  "handleConn_enter get_ok =
     (if \<not> get_ok then ([SizeCall, GetCall, ConnClose], False)
      else ([SizeCall, GetCall, SizeCall, PipeCall], True))"

definition handleConn_leave :: "conn_action list" where
  "handleConn_leave = [ConnClose]"

datatype sess_pc = Spawned | Registered | InPipe | HandlerReturned | Deregistered

record session =
  conn :: nat
  spc :: sess_pc
  sacts :: "conn_action list"

record options =
  optionTargetListen :: string
  optionMinNum :: int
  optionMaxNum :: int
  optionIdleTimeout :: int
  optionShutdownTimeout :: "64 word"
  optionUnixDomainFile :: string
  optionVerbose :: bool

datatype main_action =
    SetenvDebug
  | NewConnectionPool
  | ListenUnix string
  | ListenerSetDeadlineNow
  | NewTimer int
  | OsRemove string
  | ListenerClose
  | PoolsRelease
  | OsExit nat

datatype main_pc = AwaitSignal | InSelect | Exited nat

datatype waiter_pc = InWait | SendingWait | WaiterEnded

record server =
  opts :: options
  main_at :: main_pc
  deferred :: "main_action list"
  acts :: "main_action list"
  accepting :: bool
  sessions :: "session list"
  wg :: int
  waiter :: "waiter_pc option"

text \<open>
  Lines 31 to 86: \<open>main\<close> up to the \<open>range\<close> over the signal channel. The two
  booleans are whether \<open>NewConnectionPool\<close> and \<open>ListenUnix\<close> succeed. The \<open>defer\<close>
  statement only records its closure; it would run when \<open>main\<close> returns.
\<close>

definition main :: "options \<Rightarrow> bool \<Rightarrow> bool \<Rightarrow> server" where
  "main cfg pool_ok listen_ok =
     (let a0 = (if optionVerbose cfg then [SetenvDebug] else []) @ [NewConnectionPool];
          s0 = \<lparr>opts = cfg, main_at = AwaitSignal, deferred = [], acts = a0,
                accepting = False, sessions = [], wg = 0, waiter = None\<rparr>
      in if \<not> pool_ok then s0\<lparr>main_at := Exited 1, acts := a0 @ [OsExit 1]\<rparr>
         else if \<not> listen_ok
         then s0\<lparr>main_at := Exited 1,
                 acts := a0 @ [ListenUnix (optionUnixDomainFile cfg), OsExit 1]\<rparr>
         else s0\<lparr>acts := a0 @ [ListenUnix (optionUnixDomainFile cfg)],
                 deferred := [ListenerClose, PoolsRelease],
                 accepting := True\<rparr>)"

datatype server_event =
    AcceptReturns accept_result
  | SessAdd nat
  | SessGet nat bool
  | SessPipeReturns nat
  | SessDone nat
  | Signal
  | WaitReturns
  | SelectTimer
  | SelectWait

definition at_session :: "nat \<Rightarrow> sess_pc \<Rightarrow> server \<Rightarrow> bool" where
  "at_session i k s = (i < length (sessions s) \<and> spc (sessions s ! i) = k)"

definition shutdown_timer :: "options \<Rightarrow> int" where
  "shutdown_timer cfg = sint (word_of_nat Second * optionShutdownTimeout cfg :: 64 word)"

text \<open>
  Lines 104 to 108: \<open>os.Remove\<close>, \<open>break\<close>, \<open>os.Exit(0)\<close>. \<open>os.Exit\<close> ends the
  process at once: \<open>main\<close> does not return, so what is deferred is left as it is.
\<close>

definition leave_select :: "server \<Rightarrow> server" where
  "leave_select s =
     s\<lparr>main_at := Exited 0,
       acts := acts s @ [OsRemove (optionUnixDomainFile (opts s)), OsExit 0]\<rparr>"

fun server_step :: "server_event \<Rightarrow> server \<Rightarrow> server option" where
  "server_step ev s =
     (if main_at s \<noteq> AwaitSignal \<and> main_at s \<noteq> InSelect then None
      else (case ev of
        AcceptReturns r \<Rightarrow>
          if \<not> accepting s then None
          else (case accept_once r of
                  Stop \<Rightarrow> Some (s\<lparr>accepting := False\<rparr>)
                | Retry \<Rightarrow> Some s
                | Spawn c \<Rightarrow>
                    Some (s\<lparr>sessions := sessions s @ [\<lparr>conn = c, spc = Spawned, sacts = []\<rparr>]\<rparr>))
      | SessAdd i \<Rightarrow>
          if at_session i Spawned s
          then Some (s\<lparr>sessions := (sessions s)[i := (sessions s ! i)\<lparr>spc := Registered\<rparr>],
                       wg := wg s + 1\<rparr>)
          else None
      | SessGet i get_ok \<Rightarrow>
          if at_session i Registered s
          then (case handleConn_enter get_ok of
                  (as, in_pipe) \<Rightarrow>
                    Some (s\<lparr>sessions := (sessions s)[i := (sessions s ! i)
                              \<lparr>spc := (if in_pipe then InPipe else HandlerReturned),
                               sacts := sacts (sessions s ! i) @ as\<rparr>]\<rparr>))
          else None
      | SessPipeReturns i \<Rightarrow>
          if at_session i InPipe s
          then Some (s\<lparr>sessions := (sessions s)[i := (sessions s ! i)
                         \<lparr>spc := HandlerReturned,
                          sacts := sacts (sessions s ! i) @ handleConn_leave\<rparr>]\<rparr>)
          else None
      | SessDone i \<Rightarrow>
          if at_session i HandlerReturned s
          then Some (s\<lparr>sessions := (sessions s)[i := (sessions s ! i)\<lparr>spc := Deregistered\<rparr>],
                       wg := wg s - 1\<rparr>)
          else None
      | Signal \<Rightarrow>
          if main_at s = AwaitSignal
          then Some (s\<lparr>main_at := InSelect,
                       acts := acts s @ [ListenerSetDeadlineNow, NewTimer (shutdown_timer (opts s))],
                       waiter := Some InWait\<rparr>)
          else None
      | WaitReturns \<Rightarrow>
          if waiter s = Some InWait \<and> wg s = 0
          then Some (s\<lparr>waiter := Some SendingWait\<rparr>)
          else None
      | SelectTimer \<Rightarrow>
          if main_at s = InSelect then Some (leave_select s) else None
      | SelectWait \<Rightarrow>
          if main_at s = InSelect \<and> waiter s = Some SendingWait
          then Some (leave_select (s\<lparr>waiter := Some WaiterEnded\<rparr>))
          else None))"

section \<open>Observations used in the statements\<close>

text \<open>An accept failure that the loop classifies as a timeout; the connection of a success.\<close>

fun is_timeout_failure :: "accept_result \<Rightarrow> bool" where
  "is_timeout_failure (AcceptErr e) = (net_error_ok e \<and> Timeout e)"
| "is_timeout_failure (Conn c) = False"

fun accepted :: "accept_result \<Rightarrow> nat list" where
  "accepted (Conn c) = [c]"
| "accepted (AcceptErr e) = []"

text \<open>
  What holds of a pump at every moment: the read buffer keeps its 1024 bytes; every array
  made for a chunk lies apart from the buffer and from the other chunks, and still holds
  the bytes of its read; only such arrays are ever published or abandoned; the chunk being
  offered has not been published or abandoned before.
\<close>

definition pump_inv :: "pump \<Rightarrow> bool" where
  "pump_inv p =
     (length (heap p buf) = 1024 \<and> buf < fresh p \<and>
      distinct (map fst (made p)) \<and>
      (\<forall>(res, data) \<in> set (made p).
          buf < res \<and> res < fresh p \<and> heap p res = data \<and>
          1 \<le> length data \<and> length data \<le> 1024) \<and>
      (\<forall>res \<in> set (published p) \<union> set (abandoned p). res \<in> fst ` set (made p)) \<and>
      (case pc p of
         AtPublish res \<Rightarrow>
           res \<in> fst ` set (made p) \<and> res \<notin> set (published p) \<and> res \<notin> set (abandoned p)
       | _ \<Rightarrow> True))"

text \<open>
  A chunk array that exists, has not been published and is not being offered: the state
  of a chunk after its publish attempt was abandoned.
\<close>

definition never_published :: "nat \<Rightarrow> pump \<Rightarrow> bool" where
  "never_published res p =
     (pump_inv p \<and> res \<in> fst ` set (made p) \<and> res \<notin> set (published p) \<and> pc p \<noteq> AtPublish res)"

text \<open>
  The reaction of the dispatch loop to one received message, written from the words of the
  specification (section 4.1): a chunk from the client pump is written to the backend; the
  end sentinel from the client pump sets a deadline of 10 seconds on the backend; a chunk
  from the backend pump is written to the client; the end sentinel from the backend pump
  does nothing more. Either sentinel ends the relay (\<open>is_nil\<close>).
\<close>

fun is_nil :: "pipe_event \<Rightarrow> bool" where
  "is_nil (RecvSc sd now wr) = (sd = None)"
| "is_nil (RecvDc dd wr) = (dd = None)"

fun specified_reaction :: "pipe_event \<Rightarrow> pipe_action list" where
  "specified_reaction (RecvSc (Some chunk) now wr) = [DstWrite chunk]"
| "specified_reaction (RecvSc None now wr) = [DstSetDeadline (now + 10 * 1000000000)]"
| "specified_reaction (RecvDc (Some chunk) wr) = [SrcWrite chunk]"
| "specified_reaction (RecvDc None wr) = []"

fun without_write_result :: "pipe_event \<Rightarrow> pipe_event" where
  "without_write_result (RecvSc sd now wr) = RecvSc sd now (0, None)"
| "without_write_result (RecvDc dd wr) = RecvDc dd (0, None)"

text \<open>The defaults of the command-line flags (lines 16 to 22).\<close>

definition default_options :: options where
  "default_options =
     \<lparr>optionTargetListen = '':6379'', optionMinNum = 5, optionMaxNum = 20,
      optionIdleTimeout = 3600, optionShutdownTimeout = 60,
      optionUnixDomainFile = ''/tmp/utpools.sock'', optionVerbose = False\<rparr>"

text \<open>A session that has not called \<open>pool.Get()\<close> yet has done nothing on its connection.\<close>

definition fresh_session :: "session \<Rightarrow> bool" where
  "fresh_session x = (if spc x = Spawned \<or> spc x = Registered then sacts x = [] else True)"

definition untouched_before_get :: "server \<Rightarrow> bool" where
  "untouched_before_get s = list_all fresh_session (sessions s)"

section \<open>Runs and their invariants\<close>

lemma run_append:
  "run step (es @ fs) s = (case run step es s of None \<Rightarrow> None | Some t \<Rightarrow> run step fs t)"
  by (induction es arbitrary: s) (auto split: option.splits)

lemma run_invariant:
  assumes "run step es s = Some t" and "P s"
    and "\<And>e a b. P a \<Longrightarrow> step e a = Some b \<Longrightarrow> P b"
  shows "P t"
  using assms(1,2)
proof (induction es arbitrary: s)
  case Nil
  then show ?case by simp
next
  case (Cons e es)
  then show ?case by (auto split: option.splits intro: assms(3))
qed

section \<open>The acceptor\<close>

text \<open>
  Claim C8. The acceptor loop has stopped exactly when some accept failed with an error
  that is a \<open>net.Error\<close> whose \<open>Timeout()\<close> is true; until then every other failure is
  skipped without a session, and every accepted connection gets one session, in order.
\<close>

theorem acceptor_loop:
  "accept_loop rs =
     (concat (map accepted (takeWhile (\<lambda>r. \<not> is_timeout_failure r) rs)),
      \<exists>r \<in> set rs. is_timeout_failure r)"
proof (induction rs)
  case Nil
  show ?case by simp
next
  case (Cons r rs)
  show ?case
  proof (cases r)
    case (Conn c)
    with Cons show ?thesis by simp
  next
    case (AcceptErr e)
    with Cons show ?thesis by (cases "net_error_ok e \<and> Timeout e") auto
  qed
qed

section \<open>The pump, step by step\<close>

lemma published_trace [simp]:
  "published (p\<lparr>trace := trace p @ as\<rparr>) = published p @ concat (map published_addr as)"
  by (simp add: published_def)

lemma abandoned_trace [simp]:
  "abandoned (p\<lparr>trace := trace p @ as\<rparr>) = abandoned p @ concat (map abandoned_addr as)"
  by (simp add: abandoned_def)

lemma chunks_read_trace [simp]:
  "chunks_read (p\<lparr>trace := trace p @ as\<rparr>) = chunks_read p @ concat (map read_chunk as)"
  by (simp add: chunks_read_def)

lemma pump_step_cases [consumes 1, case_names read_error read_timeout read_empty read_chunk taken_chunk taken_nil timer]:
  assumes "pump_step e p = Some q"
  obtains
    (read_error) data er where
      "e = ReadReturns data (Some er)" "pc p = AtRead" "length data \<le> length (heap p buf)"
      "\<not> (net_error_ok er \<and> Timeout er)"
      "q = p\<lparr>trace := trace p @ [Read data (Some er)]\<rparr>
             \<lparr>heap := (heap p)(buf := data @ drop (length data) (heap p buf)), pc := AtSentinel\<rparr>"
  | (read_timeout) data er where
      "e = ReadReturns data (Some er)" "pc p = AtRead" "length data \<le> length (heap p buf)"
      "net_error_ok er \<and> Timeout er"
      "q = p\<lparr>trace := trace p @
                 (Read data (Some er) # CloseChan # (if pool_given p then [PoolPut, PoolSize] else []))\<rparr>
             \<lparr>heap := (heap p)(buf := data @ drop (length data) (heap p buf)), pc := Finished\<rparr>"
  | (read_empty)
      "e = ReadReturns [] None" "pc p = AtRead"
      "q = p\<lparr>trace := trace p @ [Read [] None]\<rparr>"
  | (read_chunk) data where
      "e = ReadReturns data None" "pc p = AtRead" "length data \<le> length (heap p buf)" "data \<noteq> []"
      "q = p\<lparr>trace := trace p @ [Read data None]\<rparr>
             \<lparr>heap := (heap p)(buf := data @ drop (length data) (heap p buf), fresh p := data),
              pc := AtPublish (fresh p), fresh := Suc (fresh p),
              made := made p @ [(fresh p, data)]\<rparr>"
  | (taken_chunk) d res where
      "e = Taken d" "pc p = AtPublish res" "d \<le> publish_timeout"
      "q = p\<lparr>trace := trace p @ [Publish res d]\<rparr>\<lparr>pc := AtRead\<rparr>"
  | (taken_nil) d where
      "e = Taken d" "pc p = AtSentinel"
      "q = p\<lparr>trace := trace p @ (PublishNil # CloseChan # (if pool_given p then [PoolPut, PoolSize] else []))\<rparr>
             \<lparr>pc := Finished\<rparr>"
  | (timer) res where
      "e = TimerFired" "pc p = AtPublish res"
      "q = p\<lparr>trace := trace p @ [Abandon res publish_timeout]\<rparr>\<lparr>pc := AtRead\<rparr>"
proof (cases e)
  case (ReadReturns data err)
  show ?thesis
  proof (cases err)
    case None
    show ?thesis
    proof (cases "data = []")
      case True
      with None ReadReturns assms have "pc p = AtRead" "q = p\<lparr>trace := trace p @ [Read [] None]\<rparr>"
        by (auto simp: Let_def split: if_splits)
      with True None ReadReturns show ?thesis using read_empty by simp
    next
      case False
      with None ReadReturns assms show ?thesis
        by (intro read_chunk[of data]) (auto simp: Let_def split: if_splits)
    qed
  next
    case (Some er)
    show ?thesis
    proof (cases "net_error_ok er \<and> Timeout er")
      case True
      with Some ReadReturns assms show ?thesis
        by (intro read_timeout[of data er]) (auto simp: Let_def finish_def split: if_splits)
    next
      case False
      with Some ReadReturns assms show ?thesis
        by (intro read_error[of data er]) (auto simp: Let_def split: if_splits)
    qed
  qed
next
  case (Taken d)
  show ?thesis
  proof (cases "pc p")
    case (AtPublish res)
    with Taken assms show ?thesis
      by (intro taken_chunk[of d res]) (auto split: if_splits)
  next
    case AtSentinel
    with Taken assms show ?thesis
      by (intro taken_nil[of d]) (auto simp: finish_def)
  qed (use Taken assms in auto)
next
  case TimerFired
  with assms show ?thesis
    by (cases "pc p") (auto intro: timer)
qed

lemma pump_step_obs [consumes 1, case_names read_error read_timeout read_empty read_chunk taken_chunk taken_nil timer]:
  assumes "pump_step e p = Some q"
  obtains
    (read_error) data er where
      "e = ReadReturns data (Some er)" "pc p = AtRead" "length data \<le> length (heap p buf)"
      "\<not> (net_error_ok er \<and> Timeout er)"
      "pc q = AtSentinel" "heap q = (heap p)(buf := data @ drop (length data) (heap p buf))"
      "fresh q = fresh p" "made q = made p" "pool_given q = pool_given p"
      "trace q = trace p @ [Read data (Some er)]"
      "published q = published p" "abandoned q = abandoned p"
      "chunks_read q = chunks_read p @ read_chunk (Read data (Some er))"
  | (read_timeout) data er where
      "e = ReadReturns data (Some er)" "pc p = AtRead" "length data \<le> length (heap p buf)"
      "net_error_ok er \<and> Timeout er"
      "pc q = Finished" "heap q = (heap p)(buf := data @ drop (length data) (heap p buf))"
      "fresh q = fresh p" "made q = made p" "pool_given q = pool_given p"
      "trace q = trace p @
         (Read data (Some er) # CloseChan # (if pool_given p then [PoolPut, PoolSize] else []))"
      "published q = published p" "abandoned q = abandoned p"
      "chunks_read q = chunks_read p @ read_chunk (Read data (Some er))"
  | (read_empty)
      "e = ReadReturns [] None" "pc p = AtRead"
      "pc q = AtRead" "heap q = heap p"
      "fresh q = fresh p" "made q = made p" "pool_given q = pool_given p"
      "trace q = trace p @ [Read [] None]"
      "published q = published p" "abandoned q = abandoned p"
      "chunks_read q = chunks_read p"
  | (read_chunk) data where
      "e = ReadReturns data None" "pc p = AtRead" "length data \<le> length (heap p buf)" "data \<noteq> []"
      "pc q = AtPublish (fresh p)"
      "heap q = (heap p)(buf := data @ drop (length data) (heap p buf), fresh p := data)"
      "fresh q = Suc (fresh p)" "made q = made p @ [(fresh p, data)]" "pool_given q = pool_given p"
      "trace q = trace p @ [Read data None]"
      "published q = published p" "abandoned q = abandoned p"
      "chunks_read q = chunks_read p @ [data]"
  | (taken_chunk) d res where
      "e = Taken d" "pc p = AtPublish res" "d \<le> publish_timeout"
      "pc q = AtRead" "heap q = heap p"
      "fresh q = fresh p" "made q = made p" "pool_given q = pool_given p"
      "trace q = trace p @ [Publish res d]"
      "published q = published p @ [res]" "abandoned q = abandoned p"
      "chunks_read q = chunks_read p"
  | (taken_nil) d where
      "e = Taken d" "pc p = AtSentinel"
      "pc q = Finished" "heap q = heap p"
      "fresh q = fresh p" "made q = made p" "pool_given q = pool_given p"
      "trace q = trace p @
         (PublishNil # CloseChan # (if pool_given p then [PoolPut, PoolSize] else []))"
      "published q = published p" "abandoned q = abandoned p"
      "chunks_read q = chunks_read p"
  | (timer) res where
      "e = TimerFired" "pc p = AtPublish res"
      "pc q = AtRead" "heap q = heap p"
      "fresh q = fresh p" "made q = made p" "pool_given q = pool_given p"
      "trace q = trace p @ [Abandon res publish_timeout]"
      "published q = published p" "abandoned q = abandoned p @ [res]"
      "chunks_read q = chunks_read p"
  using assms
proof (cases rule: pump_step_cases)
  case (read_error data er)
  then show ?thesis
    by (intro that(1)[of data er]) (simp_all add: published_def abandoned_def chunks_read_def)
next
  case (read_timeout data er)
  then show ?thesis
    by (intro that(2)[of data er]) (auto simp: published_def abandoned_def chunks_read_def)
next
  case read_empty
  then show ?thesis
    by (intro that(3)) (simp_all add: published_def abandoned_def chunks_read_def)
next
  case (read_chunk data)
  then show ?thesis
    by (intro that(4)[of data]) (simp_all add: published_def abandoned_def chunks_read_def)
next
  case (taken_chunk d res)
  then show ?thesis
    by (intro that(5)[of d res]) (simp_all add: published_def abandoned_def chunks_read_def)
next
  case (taken_nil d)
  then show ?thesis
    by (intro that(6)[of d]) (auto simp: published_def abandoned_def chunks_read_def)
next
  case (timer res)
  then show ?thesis
    by (intro that(7)[of res]) (simp_all add: published_def abandoned_def chunks_read_def)
qed

lemma pump_inv_init: "pump_inv (chanFromConn g)"
  by (simp add: pump_inv_def chanFromConn_def published_def abandoned_def buf_def)

lemma pump_inv_step:
  assumes "pump_step e p = Some q" and "pump_inv p"
  shows "pump_inv q"
  using assms(1)
proof (cases rule: pump_step_obs)
  case (read_error data er)
  with assms(2) show ?thesis by (auto simp: pump_inv_def)
next
  case (read_timeout data er)
  with assms(2) show ?thesis by (auto simp: pump_inv_def)
next
  case read_empty
  with assms(2) show ?thesis by (auto simp: pump_inv_def)
next
  case (read_chunk data)
  from assms(2) have old:
    "length (heap p buf) = 1024" "buf < fresh p" "distinct (map fst (made p))"
    "\<And>res data. (res, data) \<in> set (made p) \<Longrightarrow>
        buf < res \<and> res < fresh p \<and> heap p res = data \<and> 1 \<le> length data \<and> length data \<le> 1024"
    "\<And>res. res \<in> set (published p) \<union> set (abandoned p) \<Longrightarrow> res \<in> fst ` set (made p)"
    by (auto simp: pump_inv_def)
  have fresh_new: "fresh p \<notin> fst ` set (made p)"
    using old(4) by fastforce
  have 1: "length (heap q buf) = 1024 \<and> buf < fresh q"
    using read_chunk old(1,2) by simp
  have 2: "distinct (map fst (made q))"
    using read_chunk old(3) fresh_new by simp
  have 3: "\<forall>(res, data) \<in> set (made q).
          buf < res \<and> res < fresh q \<and> heap q res = data \<and>
          1 \<le> length data \<and> length data \<le> 1024"
  proof (clarify)
    fix res d assume "(res, d) \<in> set (made q)"
    then consider "(res, d) \<in> set (made p)" | "res = fresh p" "d = data"
      using read_chunk(8) by auto
    then show "buf < res \<and> res < fresh q \<and> heap q res = d \<and> 1 \<le> length d \<and> length d \<le> 1024"
    proof cases
      case 1
      from old(4)[OF 1] show ?thesis
        using read_chunk(6,7) by simp
    next
      case 2
      then show ?thesis
        using read_chunk(3,4,6,7) old(1,2) by (simp add: Suc_le_eq)
    qed
  qed
  have 4: "\<forall>res \<in> set (published q) \<union> set (abandoned q). res \<in> fst ` set (made q)"
    using read_chunk old(5) by auto
  have 5: "fresh p \<in> fst ` set (made q) \<and> fresh p \<notin> set (published q) \<and> fresh p \<notin> set (abandoned q)"
    using read_chunk old(5) fresh_new by auto
  show ?thesis
    unfolding pump_inv_def using 1 2 3 4 5 read_chunk(5) by simp
next
  case (taken_chunk d res)
  with assms(2) show ?thesis by (auto simp: pump_inv_def)
next
  case (taken_nil d)
  with assms(2) show ?thesis by (auto simp: pump_inv_def)
next
  case (timer res)
  with assms(2) show ?thesis by (auto simp: pump_inv_def)
qed

lemma pump_inv_run:
  "run pump_step es (chanFromConn g) = Some p \<Longrightarrow> pump_inv p"
  by (erule run_invariant[where P = pump_inv]) (auto intro: pump_inv_init pump_inv_step)

section \<open>Chunks are private copies\<close>

text \<open>
  Claim C9. After any run of a pump: the read buffer is still the one array of 1024 bytes;
  the arrays made for chunks are pairwise distinct and none is the buffer; each still holds
  exactly the bytes its read returned, between 1 and 1024 of them, however many reads into
  the buffer followed; whatever was published is such an array, and so is what is being
  offered; and \<open>nil\<close> is offered only by the plain send of the sentinel.
\<close>

theorem published_chunk_is_private_copy:
  assumes "run pump_step es (chanFromConn g) = Some p"
  shows "length (heap p buf) = 1024 \<and>
         distinct (map fst (made p)) \<and>
         (\<forall>(res, data) \<in> set (made p).
            res \<noteq> buf \<and> heap p res = data \<and> 1 \<le> length data \<and> length data \<le> 1024) \<and>
         (\<forall>res \<in> set (published p). res \<in> fst ` set (made p)) \<and>
         (\<forall>res. pc p = AtPublish res \<longrightarrow>
            offered p = Some (Some (heap p res)) \<and> (res, heap p res) \<in> set (made p)) \<and>
         (offered p = Some None) = (pc p = AtSentinel)"
proof -
  from assms have inv: "pump_inv p" by (rule pump_inv_run)
  have 1: "length (heap p buf) = 1024 \<and> distinct (map fst (made p))"
    using inv by (simp add: pump_inv_def)
  have 2: "\<forall>(res, data) \<in> set (made p).
            res \<noteq> buf \<and> heap p res = data \<and> 1 \<le> length data \<and> length data \<le> 1024"
    using inv by (fastforce simp: pump_inv_def)
  have 3: "\<forall>res \<in> set (published p). res \<in> fst ` set (made p)"
    using inv by (simp add: pump_inv_def)
  have 4: "\<forall>res. pc p = AtPublish res \<longrightarrow>
            offered p = Some (Some (heap p res)) \<and> (res, heap p res) \<in> set (made p)"
  proof (intro allI impI)
    fix res assume at: "pc p = AtPublish res"
    with inv have "res \<in> fst ` set (made p)" by (simp add: pump_inv_def)
    then obtain d where d: "(res, d) \<in> set (made p)" by auto
    with inv have "heap p res = d" by (fastforce simp: pump_inv_def)
    with d at show "offered p = Some (Some (heap p res)) \<and> (res, heap p res) \<in> set (made p)"
      by (simp add: offered_def)
  qed
  have 5: "(offered p = Some None) = (pc p = AtSentinel)"
    by (simp add: offered_def split: pump_pc.splits)
  from 1 2 3 4 5 show ?thesis by blast
qed

theorem published_chunk_is_private_copy_witness:
  "\<exists>p. run pump_step [ReadReturns [1, 2] None, Taken 5, ReadReturns [3] None] (chanFromConn True) = Some p
       \<and> published p = [1] \<and> pc p = AtPublish 2 \<and> heap p 1 = [1, 2] \<and> heap p 2 = [3]
       \<and> offered p = Some (Some [3]) \<and> length (heap p buf) = 1024"
proof -
  define p where "p = the (run pump_step [ReadReturns [1, 2] None, Taken 5, ReadReturns [3] None] (chanFromConn True))"
  have r: "run pump_step [ReadReturns [1, 2] None, Taken 5, ReadReturns [3] None] (chanFromConn True) = Some p"
    unfolding p_def by (simp add: chanFromConn_def buf_def publish_timeout_def Second_def Let_def)
  have m: "made p = [(1, [1, 2]), (2, [3])]" "pc p = AtPublish 2" "published p = [1]"
    unfolding p_def by (simp_all add: chanFromConn_def buf_def publish_timeout_def Second_def Let_def published_def)
  from published_chunk_is_private_copy[OF r] m
  have "heap p 1 = [1, 2] \<and> heap p 2 = [3] \<and> offered p = Some (Some (heap p 2)) \<and> length (heap p buf) = 1024"
    by simp
  with r m show ?thesis by auto
qed

section \<open>The publish attempt\<close>

lemma never_published_step:
  assumes "pump_step e p = Some q" and "never_published res p"
  shows "never_published res q"
proof -
  from assms have inv: "pump_inv q" by (auto simp: never_published_def intro: pump_inv_step)
  from assms(2) have lt: "res < fresh p" by (fastforce simp: never_published_def pump_inv_def)
  from assms(1) have "res \<in> fst ` set (made q) \<and> res \<notin> set (published q) \<and> pc q \<noteq> AtPublish res"
    using assms(2) lt by (cases rule: pump_step_obs) (auto simp: never_published_def)
  with inv show ?thesis by (simp add: never_published_def)
qed

text \<open>
  Claim C6. While a pump offers a chunk, the wait is bounded by \<open>time.Second * 10\<close>: the
  dispatch loop can take the chunk only within that time, and the timer ends the attempt.
  When the timer fires the pump is back at its read (any read of at most 1024 bytes can
  follow), the trace records the chunk as abandoned, and in no continuation is that chunk
  published or offered again.
\<close>

theorem publish_attempt_is_bounded:
  assumes "run pump_step es (chanFromConn g) = Some p" and "pc p = AtPublish res"
  shows "publish_timeout = 10 * 1000000000 \<and>
         (\<forall>d. (pump_step (Taken d) p \<noteq> None) = (d \<le> publish_timeout)) \<and>
         (\<exists>q. pump_step TimerFired p = Some q \<and> pc q = AtRead \<and>
              trace q = trace p @ [Abandon res publish_timeout] \<and>
              (\<forall>data err. length data \<le> 1024 \<longrightarrow> pump_step (ReadReturns data err) q \<noteq> None) \<and>
              (\<forall>fs r. run pump_step fs q = Some r \<longrightarrow>
                   res \<notin> set (published r) \<and> pc r \<noteq> AtPublish res))"
proof -
  from assms(1) have inv: "pump_inv p" by (rule pump_inv_run)
  define q where "q = p\<lparr>pc := AtRead, trace := trace p @ [Abandon res publish_timeout]\<rparr>"
  have step: "pump_step TimerFired p = Some q"
    using assms(2) by (simp add: q_def)
  have invq: "pump_inv q" using step inv by (rule pump_inv_step)
  have np: "never_published res q"
    using inv invq assms(2) by (auto simp: never_published_def pump_inv_def q_def published_def)
  have 1: "publish_timeout = 10 * 1000000000"
    by (simp add: publish_timeout_def Second_def)
  have 2: "\<forall>d. (pump_step (Taken d) p \<noteq> None) = (d \<le> publish_timeout)"
    using assms(2) by simp
  have 3: "\<forall>data err. length data \<le> 1024 \<longrightarrow> pump_step (ReadReturns data err) q \<noteq> None"
    using invq by (auto simp: q_def pump_inv_def Let_def split: option.splits)
  have 4: "\<forall>fs r. run pump_step fs q = Some r \<longrightarrow> res \<notin> set (published r) \<and> pc r \<noteq> AtPublish res"
  proof (intro allI impI)
    fix fs r assume "run pump_step fs q = Some r"
    then have "never_published res r"
      by (rule run_invariant[where P = "never_published res"]) (auto intro: np never_published_step)
    then show "res \<notin> set (published r) \<and> pc r \<noteq> AtPublish res"
      by (simp add: never_published_def)
  qed
  have "pc q = AtRead \<and> trace q = trace p @ [Abandon res publish_timeout]"
    by (simp add: q_def)
  with 1 2 3 4 step show ?thesis by blast
qed

theorem publish_attempt_is_bounded_witness:
  "\<exists>p q. run pump_step [ReadReturns [1, 2] None] (chanFromConn True) = Some p \<and>
         pc p = AtPublish 1 \<and> pump_step TimerFired p = Some q \<and> pc q = AtRead \<and>
         pump_step (Taken (10 * 1000000000)) p \<noteq> None \<and>
         pump_step (Taken (10 * 1000000000 + 1)) p = None"
proof -
  define p where "p = the (run pump_step [ReadReturns [1, 2] None] (chanFromConn True))"
  have r: "run pump_step [ReadReturns [1, 2] None] (chanFromConn True) = Some p"
    unfolding p_def by (simp add: chanFromConn_def buf_def Let_def)
  have at: "pc p = AtPublish 1"
    unfolding p_def by (simp add: chanFromConn_def buf_def Let_def)
  note th = publish_attempt_is_bounded[OF r at]
  from th have pt: "publish_timeout = 10 * 1000000000" by blast
  from th have tk: "\<forall>d. (pump_step (Taken d) p \<noteq> None) = (d \<le> publish_timeout)" by blast
  from th obtain q where q: "pump_step TimerFired p = Some q" "pc q = AtRead" by blast
  from tk have "(pump_step (Taken (10 * 1000000000)) p \<noteq> None) = (10 * 1000000000 \<le> publish_timeout)"
    by (rule spec)
  with pt have a: "pump_step (Taken (10 * 1000000000)) p \<noteq> None" by simp
  from tk have "(pump_step (Taken (10 * 1000000000 + 1)) p \<noteq> None) = (10 * 1000000000 + 1 \<le> publish_timeout)"
    by (rule spec)
  with pt have b: "pump_step (Taken (10 * 1000000000 + 1)) p = None" by simp
  from r at q a b show ?thesis by blast
qed

section \<open>The dispatch loop, message by message\<close>

lemma Pipe_step_running:
  "\<not> returned l \<Longrightarrow>
     Pipe_step e l = Some (l\<lparr>returned := is_nil e, ptrace := ptrace l @ specified_reaction e\<rparr>)"
  by (cases e) (auto simp: Second_def split: option.splits)

lemma Pipe_step_returned: "returned l \<Longrightarrow> Pipe_step e l = None"
  by (cases e) auto

lemma Pipe_run_shape:
  "run Pipe_step evs l = Some l' \<Longrightarrow>
     ptrace l' = ptrace l @ concat (map specified_reaction evs) \<and>
     returned l' = (returned l \<or> (\<exists>e \<in> set evs. is_nil e))"
proof (induction evs arbitrary: l)
  case Nil
  then show ?case by simp
next
  case (Cons e evs)
  show ?case
  proof (cases "returned l")
    case True
    with Cons.prems show ?thesis by (simp add: Pipe_step_returned)
  next
    case False
    with Cons.prems have "run Pipe_step evs (l\<lparr>returned := is_nil e, ptrace := ptrace l @ specified_reaction e\<rparr>) = Some l'"
      by (simp add: Pipe_step_running)
    from Cons.IH[OF this] False show ?thesis by auto
  qed
qed

lemma Pipe_run_chunks:
  "\<not> returned l \<Longrightarrow> \<forall>e \<in> set evs. \<not> is_nil e \<Longrightarrow> run Pipe_step evs l \<noteq> None"
proof (induction evs arbitrary: l)
  case Nil
  then show ?case by simp
next
  case (Cons e evs)
  then show ?case by (simp add: Pipe_step_running)
qed

lemma Pipe_step_write_result: "Pipe_step (without_write_result e) l = Pipe_step e l"
  by (cases e) auto

lemma Pipe_run_write_result:
  "run Pipe_step (map without_write_result evs) l = run Pipe_step evs l"
  by (induction evs arbitrary: l) (auto simp: Pipe_step_write_result split: option.splits)

text \<open>
  Claim C4. After any run of the dispatch loop, its trace is the list of the specified
  reactions to the messages it received, in order, and it has returned exactly when one of
  them was \<open>nil\<close>. While it has not returned, every next message is answered by the
  specified reaction: the chunk is written to the other connection; \<open>nil\<close> from the client
  pump sets the backend deadline to now plus 10 seconds and ends the loop; \<open>nil\<close> from
  the backend pump ends the loop with no further call. Once returned, it receives nothing.
\<close>

theorem Pipe_dispatch:
  assumes "run Pipe_step evs Pipe_loop = Some l"
  shows "ptrace l = concat (map specified_reaction evs) \<and>
         returned l = (\<exists>e \<in> set evs. is_nil e) \<and>
         (\<forall>e. Pipe_step e l =
            (if returned l then None
             else Some (l\<lparr>returned := is_nil e, ptrace := ptrace l @ specified_reaction e\<rparr>)))"
proof -
  from Pipe_run_shape[OF assms]
  have a: "ptrace l = concat (map specified_reaction evs)"
    and b: "returned l = (\<exists>e \<in> set evs. is_nil e)"
    by (simp_all add: Pipe_loop_def)
  have c: "\<forall>e. Pipe_step e l =
            (if returned l then None
             else Some (l\<lparr>returned := is_nil e, ptrace := ptrace l @ specified_reaction e\<rparr>))"
    by (simp add: Pipe_step_running Pipe_step_returned)
  from a b c show ?thesis by (intro conjI)
qed

theorem Pipe_dispatch_witness:
  "\<exists>l. run Pipe_step [RecvDc (Some [1]) (1, None), RecvSc (Some [2, 3]) 5 (0, Some OtherError),
                       RecvSc None 7 (0, None)] Pipe_loop = Some l \<and>
       ptrace l = [SrcWrite [1], DstWrite [2, 3], DstSetDeadline 10000000007] \<and> returned l \<and>
       Pipe_step (RecvDc None (0, None)) l = None"
proof -
  define l where "l = the (run Pipe_step [RecvDc (Some [1]) (1, None), RecvSc (Some [2, 3]) 5 (0, Some OtherError),
                       RecvSc None 7 (0, None)] Pipe_loop)"
  have r: "run Pipe_step [RecvDc (Some [1]) (1, None), RecvSc (Some [2, 3]) 5 (0, Some OtherError),
                       RecvSc None 7 (0, None)] Pipe_loop = Some l"
    unfolding l_def by (simp add: Pipe_loop_def)
  note th = Pipe_dispatch[OF r]
  from th have a: "ptrace l = [SrcWrite [1], DstWrite [2, 3], DstSetDeadline 10000000007]"
    by simp
  from th have b: "returned l" by simp
  from th have "\<forall>e. Pipe_step e l =
            (if returned l then None
             else Some (l\<lparr>returned := is_nil e, ptrace := ptrace l @ specified_reaction e\<rparr>))"
    by (elim conjE)
  with b have c: "Pipe_step (RecvDc None (0, None)) l = None" by simp
  from r a b c show ?thesis by blast
qed

text \<open>
  Claim C10. What \<open>Write\<close> returns has no influence on the dispatch loop: two sequences of
  received messages that differ only in the results of the writes give the same run (the
  same final state, which holds no record of a failure). A loop that has received only
  chunks is still running whatever its writes returned, and a loop has returned exactly
  when it has received \<open>nil\<close> from one of the two channels.
\<close>

theorem Pipe_ignores_write_results:
  "(map without_write_result evs = map without_write_result evs' \<longrightarrow>
      run Pipe_step evs Pipe_loop = run Pipe_step evs' Pipe_loop) \<and>
   (\<forall>l. run Pipe_step evs Pipe_loop = Some l \<longrightarrow> returned l = (\<exists>e \<in> set evs. is_nil e)) \<and>
   ((\<forall>e \<in> set evs. \<not> is_nil e) \<longrightarrow>
      (\<exists>l. run Pipe_step evs Pipe_loop = Some l \<and> \<not> returned l))"
proof -
  have 1: "run Pipe_step evs Pipe_loop = run Pipe_step evs' Pipe_loop"
    if "map without_write_result evs = map without_write_result evs'"
    using that Pipe_run_write_result[of evs Pipe_loop] Pipe_run_write_result[of evs' Pipe_loop]
    by simp
  have 2: "returned l = (\<exists>e \<in> set evs. is_nil e)" if "run Pipe_step evs Pipe_loop = Some l" for l
    using Pipe_run_shape[OF that] by (simp add: Pipe_loop_def)
  have 3: "\<exists>l. run Pipe_step evs Pipe_loop = Some l \<and> \<not> returned l"
    if a: "\<forall>e \<in> set evs. \<not> is_nil e"
  proof -
    have "\<not> returned Pipe_loop" by (simp add: Pipe_loop_def)
    from Pipe_run_chunks[OF this a]
    obtain l where l: "run Pipe_step evs Pipe_loop = Some l" by auto
    from 2[OF l] a have "\<not> returned l" by simp
    with l show ?thesis by blast
  qed
  from 1 2 3 show ?thesis by blast
qed

theorem Pipe_ignores_write_results_witness:
  "run Pipe_step [RecvSc (Some [1]) 0 (0, Some OtherError), RecvDc (Some [2]) (0, Some (NetError True))] Pipe_loop
     = run Pipe_step [RecvSc (Some [1]) 0 (1, None), RecvDc (Some [2]) (1, None)] Pipe_loop \<and>
   (\<exists>l. run Pipe_step [RecvSc (Some [1]) 0 (0, Some OtherError), RecvDc (Some [2]) (0, Some (NetError True))] Pipe_loop = Some l
        \<and> \<not> returned l)"
proof -
  let ?a = "[RecvSc (Some [1]) 0 (0, Some OtherError), RecvDc (Some [2]) (0, Some (NetError True))]"
  let ?b = "[RecvSc (Some [1]) 0 (1, None), RecvDc (Some [2]) (1, None)]"
  note th = Pipe_ignores_write_results[of ?a ?b]
  have eq: "map without_write_result ?a = map without_write_result ?b" by simp
  have nn: "\<forall>e \<in> set ?a. \<not> is_nil e" by simp
  from th eq have 1: "run Pipe_step ?a Pipe_loop = run Pipe_step ?b Pipe_loop" by blast
  from th nn have 2: "\<exists>l. run Pipe_step ?a Pipe_loop = Some l \<and> \<not> returned l" by blast
  from 1 2 show ?thesis by (intro conjI)
qed

section \<open>Sessions in the server\<close>

lemma list_all_update:
  "list_all P xs \<Longrightarrow> P y \<Longrightarrow> list_all P (xs[i := y])"
  by (induction xs arbitrary: i) (auto split: nat.splits)

lemma untouched_step:
  assumes "server_step ev s = Some s'" and "untouched_before_get s"
  shows "untouched_before_get s'"
proof (cases ev)
  case (AcceptReturns r)
  with assms show ?thesis
    by (auto simp: untouched_before_get_def fresh_session_def split: if_splits accept_outcome.splits)
next
  case (SessAdd i)
  with assms show ?thesis
    by (auto simp: untouched_before_get_def at_session_def
             intro!: list_all_update split: if_splits)
       (auto simp: fresh_session_def list_all_length split: if_splits)
next
  case (SessGet i b)
  with assms show ?thesis
    by (auto simp: untouched_before_get_def at_session_def handleConn_enter_def
             intro!: list_all_update split: if_splits)
       (auto simp: fresh_session_def list_all_length split: if_splits)
next
  case (SessPipeReturns i)
  with assms show ?thesis
    by (auto simp: untouched_before_get_def at_session_def
             intro!: list_all_update split: if_splits)
       (auto simp: fresh_session_def list_all_length split: if_splits)
next
  case (SessDone i)
  with assms show ?thesis
    by (auto simp: untouched_before_get_def at_session_def
             intro!: list_all_update split: if_splits)
       (auto simp: fresh_session_def list_all_length split: if_splits)
next
  case Signal
  with assms show ?thesis by (auto simp: untouched_before_get_def split: if_splits)
next
  case WaitReturns
  with assms show ?thesis by (auto simp: untouched_before_get_def split: if_splits)
next
  case SelectTimer
  with assms show ?thesis
    by (auto simp: untouched_before_get_def leave_select_def split: if_splits)
next
  case SelectWait
  with assms show ?thesis
    by (auto simp: untouched_before_get_def leave_select_def split: if_splits)
qed

lemma untouched_main: "untouched_before_get (main cfg pool_ok listen_ok)"
  by (simp add: untouched_before_get_def main_def Let_def)

lemma untouched_run:
  "run server_step es (main cfg pool_ok listen_ok) = Some s \<Longrightarrow> untouched_before_get s"
  by (erule run_invariant[where P = untouched_before_get])
     (auto intro: untouched_main untouched_step)

end
